theory Spec2Isabelle
  imports Main "HOL-Library.Word" "HOL-Library.Signed_Division" "HOL-Library.Sublist"
begin

section \<open>The block forwarder of the relay (relay/pkg/block/forwarder.go)\<close>

subsection \<open>Constants\<close>

text \<open>The \<^verbatim>\<open>const\<close> block of forwarder.go. Durations are in milliseconds.\<close>

definition headersQueueSize :: nat where
  "headersQueueSize = 50"

definition headersBatchSize :: nat where
  "headersBatchSize = 5"

definition headerTimeout :: nat where
  "headerTimeout = 1000"

definition difficultyEpochDuration :: int where
  "difficultyEpochDuration = 2016"

definition forwarderSleepTime :: nat where
  "forwarderSleepTime = 45000"

subsection \<open>Data\<close>

text \<open>A \<^verbatim>\<open>[32]byte\<close> digest.\<close>

type_synonym digest = "8 word list"

text \<open>
  Modelled from the spec: \<^verbatim>\<open>btc.Header\<close>, whose declaration is in package btc. The fields
  are those of section 3 of the specification and of the composite literals of the tests
  (\<^verbatim>\<open>Height: int64(i)\<close>, \<^verbatim>\<open>Hash: [32]byte{1}\<close>): \<open>Height\<close> is a signed 64-bit integer.
\<close>

record header =
  Height :: "64 word"
  Hash :: digest
  PrevHash :: digest

text \<open>
  A \<^verbatim>\<open>*btc.Header\<close> is \<open>None\<close> when it is the nil pointer; reading a field through nil
  panics. A \<^verbatim>\<open>[]*btc.Header\<close> is a list of such pointers.
\<close>

type_synonym batch = "header option list"

datatype panic = NilPointerDereference | IndexOutOfRange

text \<open>
  Modelled from the spec: the state behind the \<^verbatim>\<open>chain.Handle\<close> of the host chain, whose
  declaration is in package chain. Section 6 of the specification gives it a best-known
  digest and header submissions; \<open>submissions\<close> lists the batches submitted, oldest first.
\<close>

record host_chain =
  bestKnownDigest :: digest
  submissions :: "header list list"

text \<open>
  The \<^verbatim>\<open>Forwarder\<close> struct. The source chain behind \<^verbatim>\<open>btc.Handle\<close> is the list of the
  headers it holds. A buffered channel is the list of the values it buffers, oldest
  first. An \<^verbatim>\<open>error\<close> is its message. \<open>processedHeaders\<close> is a Go \<^verbatim>\<open>int\<close>; it is
  only ever increased by the length of a slice from a value below 5, which cannot
  overflow, so it is an \<open>int\<close>.
\<close>

record forwarder =
  btcChain :: "header list"
  hostChain :: host_chain
  processedHeaders :: int
  headersQueue :: "header option list"
  errChan :: "string list"

subsection \<open>Pushing a batch\<close>

text \<open>\<^verbatim>\<open>headers[i]\<close>: an index outside the slice panics.\<close>

definition index :: "batch \<Rightarrow> nat \<Rightarrow> panic + header option" where
  "index headers i = (if i < length headers then Inr (headers ! i) else Inl IndexOutOfRange)"

text \<open>\<^verbatim>\<open>p.Height\<close> for a pointer \<open>p\<close>, read as the signed value of the 64 bits.\<close>

definition height_of :: "header option \<Rightarrow> panic + int" where
  "height_of p = (case p of None \<Rightarrow> Inl NilPointerDereference | Some h \<Rightarrow> Inr (sint (Height h)))"

text \<open>
  Go's \<^verbatim>\<open>%\<close> truncates towards zero: the remainder has the sign of the dividend, which is
  \<open>smod\<close>. With the divisor 2016 the result is within 64 bits.
\<close>

definition go_rem :: "int \<Rightarrow> int \<Rightarrow> int" where
  "go_rem a b = a smod b"

text \<open>
  The three branches of the \<^verbatim>\<open>if\<close> chain of \<^verbatim>\<open>pushHeadersToChain\<close>, named after the
  comment each branch carries.
\<close>

datatype difficulty_case = DifficultyChangeFirst | SpansDifficultyChange | NoDifficultyChange

definition classify :: "int \<Rightarrow> int \<Rightarrow> difficulty_case" where
  "classify startDifficulty endDifficulty =
     (if startDifficulty = 0 then DifficultyChangeFirst
      else if startDifficulty > endDifficulty then SpansDifficultyChange
      else NoDifficultyChange)"

text \<open>The body of each branch is empty in the source (\<^verbatim>\<open>// TODO: implementation\<close>).\<close>

fun pushBranch :: "difficulty_case \<Rightarrow> forwarder \<Rightarrow> batch \<Rightarrow> forwarder" where
  "pushBranch DifficultyChangeFirst f headers = f"
| "pushBranch SpansDifficultyChange f headers = f"
| "pushBranch NoDifficultyChange f headers = f"

text \<open>\<^verbatim>\<open>updateBestHeader\<close>: the body is empty in the source.\<close>

definition updateBestHeader :: "forwarder \<Rightarrow> header option \<Rightarrow> forwarder" where
  "updateBestHeader f header = f"

definition pushHeadersToChain :: "forwarder \<Rightarrow> batch \<Rightarrow> panic + forwarder" where
  "pushHeadersToChain f headers =
     (if length headers = 0 then Inr f
      else
        (case index headers 0 of Inl p \<Rightarrow> Inl p | Inr first \<Rightarrow>
        (case height_of first of Inl p \<Rightarrow> Inl p | Inr startHeight \<Rightarrow>
        (case index headers (length headers - 1) of Inl p \<Rightarrow> Inl p | Inr lst \<Rightarrow>
        (case height_of lst of Inl p \<Rightarrow> Inl p | Inr endHeight \<Rightarrow>
          (let startDifficulty = go_rem startHeight difficultyEpochDuration;
               endDifficulty = go_rem endHeight difficultyEpochDuration;
               f1 = pushBranch (classify startDifficulty endDifficulty) f headers;
               f2 = f1\<lparr>processedHeaders := processedHeaders f1 + int (length headers)\<rparr>
           in if processedHeaders f2 \<ge> int headersBatchSize then
                (case index headers (length headers - 1) of
                   Inl p \<Rightarrow> Inl p
                 | Inr newBestHeader \<Rightarrow>
                     Inr ((updateBestHeader f2 newBestHeader)\<lparr>processedHeaders := 0\<rparr>))
              else Inr f2))))))"

subsection \<open>The environment of the loop\<close>

text \<open>
  The loop goroutine meets the rest of the program at its \<^verbatim>\<open>select\<close> statements only. What
  it can see there is the context (\<open>ctxDone\<close>: the channel \<^verbatim>\<open>ctx.Done()\<close> is closed) and
  the time (\<open>clock\<close>, in milliseconds): a timer is the time at which it expires.
\<close>

record world =
  ctxDone :: bool
  clock :: nat

text \<open>
  An execution is driven by a schedule, a list of events. \<open>Cancel\<close>, \<open>Elapse\<close> and
  \<open>Enqueue\<close> are what others do while the goroutine waits in a \<^verbatim>\<open>select\<close>: the context is
  cancelled, time passes, a producer sends a pointer on \<^verbatim>\<open>headersQueue\<close>. \<open>RecvHeader\<close>,
  \<open>TimerFired\<close> and \<open>RecvDone\<close> say which case of the pending \<^verbatim>\<open>select\<close> is taken: the
  receive from the queue, from the timer's channel, from \<^verbatim>\<open>ctx.Done()\<close>. Go takes any of
  the cases that are ready, so a case named by the schedule is taken when it is ready
  (the queue holds a value, the timer has expired, the context is cancelled) and the
  event is skipped when it is not. A schedule that ends leaves the goroutine waiting.
\<close>

datatype event =
    Cancel
  | Elapse nat
  | Enqueue "header option"
  | RecvHeader
  | TimerFired
  | RecvDone

text \<open>
  A send on \<^verbatim>\<open>headersQueue\<close>, a channel of capacity \<open>headersQueueSize\<close>: on a full
  channel the sender blocks, so nothing is added.
\<close>

definition send :: "forwarder \<Rightarrow> header option \<Rightarrow> forwarder" where
  "send f h =
     (if length (headersQueue f) < headersQueueSize
      then f\<lparr>headersQueue := headersQueue f @ [h]\<rparr> else f)"

text \<open>What the events of the others do; a case of a \<^verbatim>\<open>select\<close> is none of them.\<close>

fun others :: "forwarder \<times> world \<Rightarrow> event \<Rightarrow> forwarder \<times> world" where
  "others (f, w) Cancel = (f, w\<lparr>ctxDone := True\<rparr>)"
| "others (f, w) (Elapse d) = (f, w\<lparr>clock := clock w + d\<rparr>)"
| "others (f, w) (Enqueue h) = (send f h, w)"
| "others (f, w) RecvHeader = (f, w)"
| "others (f, w) TimerFired = (f, w)"
| "others (f, w) RecvDone = (f, w)"

subsection \<open>Pulling a batch\<close>

datatype pull_result =
    PullReturned batch forwarder world "event list"
  | PullWaiting batch nat forwarder world
  | PullPanicked panic forwarder world

text \<open>
  The \<^verbatim>\<open>for\<close> loop of \<^verbatim>\<open>pullHeadersFromQueue\<close>, with \<open>headerTimer\<close> the time at which the
  timer expires. \<open>PullReturned\<close> carries the returned slice and the rest of the schedule;
  \<open>PullWaiting\<close> is the loop blocked in its \<^verbatim>\<open>select\<close> at the end of the schedule.
  The receive from the queue reads \<^verbatim>\<open>header.Height\<close> for the log line before it appends,
  which panics on a nil pointer. Stopping, draining and resetting the timer arms it for
  \<open>headerTimeout\<close> from the current time.
\<close>

fun pull_loop :: "forwarder \<Rightarrow> world \<Rightarrow> nat \<Rightarrow> batch \<Rightarrow> event list \<Rightarrow> pull_result" where
  "pull_loop f w headerTimer headers [] =
     (if length headers < headersBatchSize then PullWaiting headers headerTimer f w
      else PullReturned headers f w [])"
| "pull_loop f w headerTimer headers (ev # evs) =
     (if length headers < headersBatchSize then
        (case ev of
           RecvHeader \<Rightarrow>
             (case headersQueue f of
                [] \<Rightarrow> pull_loop f w headerTimer headers evs
              | header # queue \<Rightarrow>
                  (case height_of header of
                     Inl p \<Rightarrow> PullPanicked p (f\<lparr>headersQueue := queue\<rparr>) w
                   | Inr height \<Rightarrow>
                       pull_loop (f\<lparr>headersQueue := queue\<rparr>) w (clock w + headerTimeout)
                         (headers @ [header]) evs))
         | TimerFired \<Rightarrow>
             (if headerTimer \<le> clock w then
                (if length headers > 0 then PullReturned headers f w evs
                 else pull_loop f w (clock w + headerTimeout) headers evs)
              else pull_loop f w headerTimer headers evs)
         | RecvDone \<Rightarrow>
             (if ctxDone w then PullReturned headers f w evs
              else pull_loop f w headerTimer headers evs)
         | Cancel \<Rightarrow> pull_loop f (w\<lparr>ctxDone := True\<rparr>) headerTimer headers evs
         | Elapse d \<Rightarrow> pull_loop f (w\<lparr>clock := clock w + d\<rparr>) headerTimer headers evs
         | Enqueue h \<Rightarrow> pull_loop (send f h) w headerTimer headers evs)
      else PullReturned headers f w (ev # evs))"

definition pullHeadersFromQueue :: "forwarder \<Rightarrow> world \<Rightarrow> event list \<Rightarrow> pull_result" where
  "pullHeadersFromQueue f w evs = pull_loop f w (clock w + headerTimeout) [] evs"

subsection \<open>The loop\<close>

datatype sleep_result =
    SleepDone forwarder world "event list"
  | SleepWaiting nat forwarder world

text \<open>
  The second \<^verbatim>\<open>select\<close> of \<^verbatim>\<open>loop\<close>, between \<^verbatim>\<open>time.After(forwarderSleepTime)\<close>, which
  expires at \<open>timer\<close>, and \<^verbatim>\<open>ctx.Done()\<close>. It has no case for the queue.
\<close>

fun sleep_select :: "forwarder \<Rightarrow> world \<Rightarrow> nat \<Rightarrow> event list \<Rightarrow> sleep_result" where
  "sleep_select f w timer [] = SleepWaiting timer f w"
| "sleep_select f w timer (ev # evs) =
     (case ev of
        TimerFired \<Rightarrow>
          (if timer \<le> clock w then SleepDone f w evs else sleep_select f w timer evs)
      | RecvDone \<Rightarrow>
          (if ctxDone w then SleepDone f w evs else sleep_select f w timer evs)
      | Cancel \<Rightarrow> sleep_select f (w\<lparr>ctxDone := True\<rparr>) timer evs
      | Elapse d \<Rightarrow> sleep_select f (w\<lparr>clock := clock w + d\<rparr>) timer evs
      | Enqueue h \<Rightarrow> sleep_select (send f h) w timer evs
      | RecvHeader \<Rightarrow> sleep_select f w timer evs)"

text \<open>
  Once the goroutine has returned, the others go on alone: producers can still send.
\<close>

definition afterwards :: "forwarder \<Rightarrow> world \<Rightarrow> event list \<Rightarrow> forwarder \<times> world" where
  "afterwards f w evs = foldl others (f, w) evs"

text \<open>
  Where the goroutine is at the end of the schedule: it has returned (\<open>Exited\<close>), it is
  blocked in the \<^verbatim>\<open>select\<close> of the pull (\<open>InPull\<close>, with the headers pulled so far and the
  timer) or in the one of the sleep (\<open>InSleep\<close>), or it has panicked (\<open>Crashed\<close>).
\<close>

datatype loop_result =
    Exited forwarder world
  | InPull batch nat forwarder world
  | InSleep nat forwarder world
  | Crashed panic forwarder world

lemma pull_loop_consumes:
  "pull_loop f w t hs evs = PullReturned hs' f' w' evs' \<Longrightarrow>
     length evs' \<le> length evs \<and> (length hs < headersBatchSize \<longrightarrow> length evs' < length evs)"
proof (induction evs arbitrary: f w t hs)
  case Nil
  then show ?case by (simp split: if_splits)
next
  case (Cons ev evs)
  have IH: "length evs' \<le> length evs"
    if "pull_loop g v u ks evs = PullReturned hs' f' w' evs'" for g v u ks
    using Cons.IH [OF that] by simp
  show ?case
  proof (cases "length hs < headersBatchSize")
    case False
    with Cons.prems show ?thesis by simp
  next
    case True
    have "length evs' \<le> length evs"
    proof (cases ev)
      case RecvHeader
      with True Cons.prems show ?thesis
        by (auto split: list.splits sum.splits dest: IH)
    next
      case TimerFired
      with True Cons.prems show ?thesis
        by (auto split: if_splits dest: IH)
    next
      case RecvDone
      with True Cons.prems show ?thesis
        by (auto split: if_splits dest: IH)
    qed (use True Cons.prems in \<open>auto split: prod.splits dest: IH\<close>)
    then show ?thesis by simp
  qed
qed

lemma sleep_select_consumes:
  "sleep_select f w t evs = SleepDone f' w' evs' \<Longrightarrow> length evs' \<le> length evs"
proof (induction evs arbitrary: f w)
  case Nil
  then show ?case by simp
next
  case (Cons ev evs)
  have IH: "length evs' \<le> length evs"
    if "sleep_select g v t evs = SleepDone f' w' evs'" for g v
    using Cons.IH [OF that] .
  have "length evs' \<le> length evs"
    using Cons.prems by (cases ev) (auto split: if_splits prod.splits dest: IH)
  then show ?case by simp
qed

text \<open>
  \<^verbatim>\<open>loop\<close>: the first \<^verbatim>\<open>select\<close> returns when the context is cancelled and takes its
  \<^verbatim>\<open>default\<close> case otherwise, without blocking. \<open>afterPull\<close> is the rest of the
  \<^verbatim>\<open>default\<close> case, from the test of \<^verbatim>\<open>len(headers)\<close> on; \<^verbatim>\<open>continue\<close> and the end of
  the body go back to the first \<^verbatim>\<open>select\<close>. Nothing in the body sends on \<^verbatim>\<open>errChan\<close>.
\<close>

function loop :: "forwarder \<Rightarrow> world \<Rightarrow> event list \<Rightarrow> loop_result"
  and afterPull :: "forwarder \<Rightarrow> world \<Rightarrow> batch \<Rightarrow> event list \<Rightarrow> loop_result" where
  "loop f w evs =
     (if ctxDone w then
        (case afterwards f w evs of (f', w') \<Rightarrow> Exited f' w')
      else
        (case pullHeadersFromQueue f w evs of
           PullReturned headers f' w' evs' \<Rightarrow> afterPull f' w' headers evs'
         | PullWaiting headers timer f' w' \<Rightarrow> InPull headers timer f' w'
         | PullPanicked p f' w' \<Rightarrow> Crashed p f' w'))"
| "afterPull f w headers evs =
     (if length headers = 0 then loop f w evs
      else
        (case pushHeadersToChain f headers of
           Inl p \<Rightarrow> Crashed p f w
         | Inr f' \<Rightarrow>
             (case sleep_select f' w (clock w + forwarderSleepTime) evs of
                SleepDone f'' w' evs' \<Rightarrow> loop f'' w' evs'
              | SleepWaiting timer f'' w' \<Rightarrow> InSleep timer f'' w')))"
  by pat_completeness auto
termination
proof (relation "measure (\<lambda>x. case x of Inl (f, w, evs) \<Rightarrow> 2 * length evs + 1
                                     | Inr (f, w, hs, evs) \<Rightarrow> 2 * length evs + 2)")
  show "wf (measure (\<lambda>x. case x of Inl (f, w, evs) \<Rightarrow> 2 * length evs + 1
                                 | Inr (f, w, hs, evs) \<Rightarrow> 2 * length evs + 2))"
    by simp
next
  fix f f' :: forwarder and w w' :: world and evs evs' :: "event list" and headers :: batch
  assume "pullHeadersFromQueue f w evs = PullReturned headers f' w' evs'"
  then have "length evs' < length evs"
    using pull_loop_consumes [of f w "clock w + headerTimeout" "[]" evs headers f' w' evs']
    by (simp add: pullHeadersFromQueue_def headersBatchSize_def)
  then show "(Inr (f', w', headers, evs'), Inl (f, w, evs))
      \<in> measure (\<lambda>x. case x of Inl (f, w, evs) \<Rightarrow> 2 * length evs + 1
                             | Inr (f, w, hs, evs) \<Rightarrow> 2 * length evs + 2)"
    by simp
next
  fix f :: forwarder and w :: world and headers :: batch and evs :: "event list"
  show "(Inl (f, w, evs), Inr (f, w, headers, evs))
      \<in> measure (\<lambda>x. case x of Inl (f, w, evs) \<Rightarrow> 2 * length evs + 1
                             | Inr (f, w, hs, evs) \<Rightarrow> 2 * length evs + 2)"
    by simp
next
  fix f f' f'' :: forwarder and w w' :: world and evs evs' :: "event list" and headers :: batch
  assume "sleep_select f' w (clock w + forwarderSleepTime) evs = SleepDone f'' w' evs'"
  then have "length evs' \<le> length evs"
    by (rule sleep_select_consumes)
  then show "(Inl (f'', w', evs'), Inr (f, w, headers, evs))
      \<in> measure (\<lambda>x. case x of Inl (f, w, evs) \<Rightarrow> 2 * length evs + 1
                             | Inr (f, w, hs, evs) \<Rightarrow> 2 * length evs + 2)"
    by simp
qed

declare loop.simps [simp del] afterPull.simps [simp del]

text \<open>
  \<^verbatim>\<open>RunForwarder\<close> builds the forwarder with two empty channels and a zero counter and
  starts \<^verbatim>\<open>loop\<close> as a goroutine: the execution under a schedule \<open>evs\<close> is
  \<open>loop (RunForwarder btc host) w evs\<close>.
\<close>

definition RunForwarder :: "header list \<Rightarrow> host_chain \<Rightarrow> forwarder" where
  "RunForwarder btc host =
     \<lparr>btcChain = btc, hostChain = host, processedHeaders = 0, headersQueue = [], errChan = []\<rparr>"


subsection \<open>Observations\<close>

text \<open>The forwarder and the world of a state of the loop, and where the goroutine stands.\<close>

fun fwd_of :: "loop_result \<Rightarrow> forwarder" where
  "fwd_of (Exited f w) = f"
| "fwd_of (InPull headers timer f w) = f"
| "fwd_of (InSleep timer f w) = f"
| "fwd_of (Crashed p f w) = f"




text \<open>
  \<open>grown evs queue queue'\<close>: the second queue is the first one followed by values that
  producers send in the schedule \<open>evs\<close>. Under a schedule in which nothing is sent the two
  queues are the same.
\<close>

definition grown :: "event list \<Rightarrow> header option list \<Rightarrow> header option list \<Rightarrow> bool" where
  "grown evs queue queue' \<longleftrightarrow>
     prefix queue queue' \<and> (\<forall>h \<in> set (drop (length queue) queue'). Enqueue h \<in> set evs)"


text \<open>
  The execution continued from a state of the loop under a further schedule: a blocked
  \<^verbatim>\<open>select\<close> goes on where it was.
\<close>

definition resume :: "loop_result \<Rightarrow> event list \<Rightarrow> loop_result" where
  "resume r evs =
     (case r of
        Exited f w \<Rightarrow> (case afterwards f w evs of (f', w') \<Rightarrow> Exited f' w')
      | InPull headers timer f w \<Rightarrow>
          (case pull_loop f w timer headers evs of
             PullReturned headers' f' w' evs' \<Rightarrow> afterPull f' w' headers' evs'
           | PullWaiting headers' timer' f' w' \<Rightarrow> InPull headers' timer' f' w'
           | PullPanicked p f' w' \<Rightarrow> Crashed p f' w')
      | InSleep timer f w \<Rightarrow>
          (case sleep_select f w timer evs of
             SleepDone f' w' evs' \<Rightarrow> loop f' w' evs'
           | SleepWaiting timer' f' w' \<Rightarrow> InSleep timer' f' w')
      | Crashed p f w \<Rightarrow> Crashed p f w)"

text \<open>
  \<open>queue_only f f'\<close>: the two forwarders differ in the queue at most. \<open>sent_only\<close>: in
  addition the queue has only grown by what is sent in the schedule, and a cancelled
  context has stayed so.
\<close>

definition queue_only :: "forwarder \<Rightarrow> forwarder \<Rightarrow> bool" where
  "queue_only f f' \<longleftrightarrow> f' = f\<lparr>headersQueue := headersQueue f'\<rparr>"

definition sent_only :: "event list \<Rightarrow> forwarder \<times> world \<Rightarrow> forwarder \<times> world \<Rightarrow> bool" where
  "sent_only evs s s' \<longleftrightarrow>
     queue_only (fst s) (fst s') \<and> grown evs (headersQueue (fst s)) (headersQueue (fst s')) \<and>
     (ctxDone (snd s) \<longrightarrow> ctxDone (snd s'))"

subsection \<open>The data of the tests\<close>

text \<open>
  The headers that \<^verbatim>\<open>TestForwarder_PushingLoop_ErrorShutdown\<close> sends on the queue
  (\<^verbatim>\<open>hash[31] = byte(i)\<close>, \<^verbatim>\<open>prevHash[31] = byte(i - 1)\<close>, \<^verbatim>\<open>Height: int64(i)\<close>), the
  header it puts on the source chain, a host chain on which nothing has been set, and a
  context that is not cancelled at time 0.
\<close>

definition testHeader :: "nat \<Rightarrow> header" where
  "testHeader i =
     \<lparr>Height = of_nat i, Hash = replicate 31 0 @ [of_nat i],
      PrevHash = replicate 31 0 @ [of_nat (i - 1)]\<rparr>"

definition testBtcHeader :: header where
  "testBtcHeader =
     \<lparr>Height = 255, Hash = 255 # replicate 31 0, PrevHash = 254 # replicate 31 0\<rparr>"

definition testHost :: host_chain where
  "testHost = \<lparr>bestKnownDigest = replicate 32 0, submissions = []\<rparr>"

definition testWorld :: world where
  "testWorld = \<lparr>ctxDone = False, clock = 0\<rparr>"

definition testForwarder :: forwarder where
  "testForwarder = RunForwarder [testBtcHeader] testHost"

lemmas test_defs = testForwarder_def RunForwarder_def testWorld_def send_def pullHeadersFromQueue_def
  headersQueueSize_def headersBatchSize_def headerTimeout_def forwarderSleepTime_def height_of_def

section \<open>Properties of the push\<close>

text \<open>
  A push of a batch that is not empty and whose first and last pointers are not nil
  returns, and changes the counter only; any push that returns leaves the host chain, the
  two channels and the source chain alone, and keeps the counter below the batch size.
\<close>

lemma pushBranch_id: "pushBranch c f headers = f"
  by (cases c) simp_all

lemma index_first: "headers \<noteq> [] \<Longrightarrow> index headers 0 = Inr (hd headers)"
  by (simp add: index_def hd_conv_nth)

lemma index_last: "headers \<noteq> [] \<Longrightarrow> index headers (length headers - Suc 0) = Inr (last headers)"
  by (simp add: index_def last_conv_nth)

lemma push_nonempty:
  assumes "headers \<noteq> []" and "hd headers = Some first" and "last headers = Some lst"
  shows "pushHeadersToChain f headers =
     Inr (if int headersBatchSize \<le> processedHeaders f + int (length headers)
          then f\<lparr>processedHeaders := 0\<rparr>
          else f\<lparr>processedHeaders := processedHeaders f + int (length headers)\<rparr>)"
  using assms
  by (simp add: pushHeadersToChain_def index_first index_last height_of_def pushBranch_id
      Let_def updateBestHeader_def)

lemma push_frame:
  assumes "pushHeadersToChain f headers = Inr f'"
  shows "hostChain f' = hostChain f \<and> headersQueue f' = headersQueue f \<and>
         errChan f' = errChan f \<and> btcChain f' = btcChain f"
proof (cases "headers = []")
  case True
  with assms show ?thesis by (simp add: pushHeadersToChain_def)
next
  case False
  with assms obtain first lst where "hd headers = Some first" "last headers = Some lst"
    by (auto simp: pushHeadersToChain_def index_first index_last height_of_def
        split: option.splits)
  from push_nonempty [OF False this, of f] assms show ?thesis
    by (auto split: if_splits)
qed

lemma push_counter:
  assumes "0 \<le> processedHeaders f" and "processedHeaders f < int headersBatchSize"
    and "pushHeadersToChain f headers = Inr f'"
  shows "0 \<le> processedHeaders f' \<and> processedHeaders f' < int headersBatchSize"
proof (cases "headers = []")
  case True
  with assms show ?thesis by (simp add: pushHeadersToChain_def)
next
  case False
  with assms obtain first lst where "hd headers = Some first" "last headers = Some lst"
    by (auto simp: pushHeadersToChain_def index_first index_last height_of_def
        split: option.splits)
  from push_nonempty [OF False this, of f] assms show ?thesis
    by (auto simp: headersBatchSize_def split: if_splits)
qed

lemma go_rem_zero_iff:
  "go_rem a difficultyEpochDuration = 0 \<longleftrightarrow> a mod difficultyEpochDuration = 0"
proof (cases "0 \<le> a")
  case True
  then show ?thesis
    by (cases "a = 0")
      (simp_all add: go_rem_def difficultyEpochDuration_def signed_modulo_int_def)
next
  case False
  then have "sgn a = - 1" "\<bar>a\<bar> = - a" by simp_all
  then have "go_rem a difficultyEpochDuration = - ((- a) mod 2016)"
    by (simp add: go_rem_def difficultyEpochDuration_def signed_modulo_int_def)
  moreover have "(- a) mod 2016 = 0 \<longleftrightarrow> a mod 2016 = 0"
    by presburger
  ultimately show ?thesis
    by (simp add: difficultyEpochDuration_def)
qed

lemma go_rem_nonneg:
  "0 \<le> a \<Longrightarrow> go_rem a difficultyEpochDuration = a mod difficultyEpochDuration"
  by (cases "a = 0") (simp_all add: go_rem_def difficultyEpochDuration_def signed_modulo_int_def)

text \<open>
  C10. Pushing an empty batch returns at once and without a panic, so that neither
  \<^verbatim>\<open>headers[0]\<close> nor the classification is evaluated, and the forwarder it returns is
  the one it was given: host chain, counter, queue and error channel are unchanged.
\<close>

theorem push_empty_noop: "pushHeadersToChain f [] = Inr f"
  by (simp add: pushHeadersToChain_def)




text \<open>
  C1, as the code has it. Take a batch that is not empty and whose first and last pointers
  are not nil, and let \<open>startDifficulty\<close> and \<open>endDifficulty\<close> be the remainders (Go's
  \<^verbatim>\<open>%\<close>) of the first and of the last height by 2016. The branch taken is the first
  exactly when \<open>startDifficulty = 0\<close>, that is when the first height is a multiple of 2016;
  the second exactly when \<open>startDifficulty \<noteq> 0\<close> and \<open>startDifficulty > endDifficulty\<close>; the
  third otherwise. For heights that are not negative the two remainders are the heights
  modulo 2016. Each branch is empty, and the push returns with the host chain as it was:
  no batch is submitted, whole or in two parts.
\<close>

theorem push_classification:
  assumes "headers \<noteq> []" and "hd headers = Some first" and "last headers = Some lst"
  shows "let startDifficulty = go_rem (sint (Height first)) difficultyEpochDuration;
             endDifficulty = go_rem (sint (Height lst)) difficultyEpochDuration;
             branch = classify startDifficulty endDifficulty
         in (branch = DifficultyChangeFirst \<longleftrightarrow> startDifficulty = 0) \<and>
            (branch = SpansDifficultyChange \<longleftrightarrow>
               startDifficulty \<noteq> 0 \<and> startDifficulty > endDifficulty) \<and>
            (branch = NoDifficultyChange \<longleftrightarrow>
               startDifficulty \<noteq> 0 \<and> \<not> startDifficulty > endDifficulty) \<and>
            (startDifficulty = 0 \<longleftrightarrow> sint (Height first) mod difficultyEpochDuration = 0) \<and>
            (0 \<le> sint (Height first) \<and> 0 \<le> sint (Height lst) \<longrightarrow>
               startDifficulty = sint (Height first) mod difficultyEpochDuration \<and>
               endDifficulty = sint (Height lst) mod difficultyEpochDuration) \<and>
            pushBranch branch f headers = f \<and>
            (\<exists>f'. pushHeadersToChain f headers = Inr f' \<and> hostChain f' = hostChain f)"
proof -
  obtain f' where "pushHeadersToChain f headers = Inr f'"
    using push_nonempty [OF assms, of f] by simp
  then show ?thesis
    using push_frame [of f headers f']
    by (simp add: Let_def classify_def pushBranch_id go_rem_zero_iff go_rem_nonneg)
qed

text \<open>The same at the heights 2015, 2016, 2017, which take the second branch.\<close>

theorem push_classification_witness:
  "[Some (testHeader 2015), Some (testHeader 2016), Some (testHeader 2017)] \<noteq> [] \<and>
   hd [Some (testHeader 2015), Some (testHeader 2016), Some (testHeader 2017)]
     = Some (testHeader 2015) \<and>
   last [Some (testHeader 2015), Some (testHeader 2016), Some (testHeader 2017)]
     = Some (testHeader 2017) \<and>
   go_rem (sint (Height (testHeader 2015))) difficultyEpochDuration = 2015 \<and>
   go_rem (sint (Height (testHeader 2017))) difficultyEpochDuration = 1 \<and>
   classify 2015 1 = SpansDifficultyChange \<and>
   (\<exists>f'. pushHeadersToChain testForwarder
           [Some (testHeader 2015), Some (testHeader 2016), Some (testHeader 2017)] = Inr f' \<and>
         hostChain f' = hostChain testForwarder)"
  using push_classification [of
      "[Some (testHeader 2015), Some (testHeader 2016), Some (testHeader 2017)]"
      "testHeader 2015" "testHeader 2017" testForwarder]
  by (simp add: Let_def testHeader_def go_rem_def difficultyEpochDuration_def
      signed_modulo_int_def)

text \<open>
  C1 as stated fails. The batch of heights 2015, 2016, 2017 takes the second branch, and
  after the push the host chain has received no submission, where the claim has two.
\<close>

theorem push_spanning_counterexample:
  "classify (go_rem (sint (Height (testHeader 2015))) difficultyEpochDuration)
            (go_rem (sint (Height (testHeader 2017))) difficultyEpochDuration)
     = SpansDifficultyChange \<and>
   pushHeadersToChain (RunForwarder [] testHost)
     [Some (testHeader 2015), Some (testHeader 2016), Some (testHeader 2017)]
     = Inr ((RunForwarder [] testHost)\<lparr>processedHeaders := 3\<rparr>) \<and>
   submissions (hostChain ((RunForwarder [] testHost)\<lparr>processedHeaders := 3\<rparr>)) = []"
  by (simp add: push_nonempty RunForwarder_def headersBatchSize_def testHost_def testHeader_def
      classify_def go_rem_def difficultyEpochDuration_def signed_modulo_int_def)

section \<open>Properties of the pull\<close>

text \<open>
  A pull that waits at the end of a schedule goes on from there when the schedule is
  extended, a pull that has returned or panicked is not changed by an extension. A pull
  waits with fewer than 5 headers, returns at most 5, and returns no nil pointer.
\<close>

lemma pull_loop_full:
  "\<not> length hs < headersBatchSize \<Longrightarrow> pull_loop f w t hs evs = PullReturned hs f w evs"
  by (cases evs) simp_all

lemma pull_loop_append:
  "pull_loop f w t hs evs = PullWaiting hs' t' f' w' \<Longrightarrow>
     pull_loop f w t hs (evs @ es) = pull_loop f' w' t' hs' es"
proof (induction evs arbitrary: f w t hs)
  case Nil
  then show ?case by (simp split: if_splits)
next
  case (Cons ev evs)
  from Cons.prems have less: "length hs < headersBatchSize"
    by (simp split: if_splits)
  show ?case
  proof (cases ev)
    case RecvHeader
    with less Cons.prems show ?thesis
      by (auto split: list.splits sum.splits intro: Cons.IH)
  next
    case TimerFired
    with less Cons.prems show ?thesis
      by (auto split: if_splits intro: Cons.IH)
  next
    case RecvDone
    with less Cons.prems show ?thesis
      by (auto split: if_splits intro: Cons.IH)
  qed (use less Cons.prems in \<open>auto split: prod.splits intro: Cons.IH\<close>)
qed

lemma pull_loop_waiting_short:
  "pull_loop f w t hs evs = PullWaiting hs' t' f' w' \<Longrightarrow> length hs' < headersBatchSize"
proof (induction evs arbitrary: f w t hs)
  case Nil
  then show ?case by (simp split: if_splits)
next
  case (Cons ev evs)
  from Cons.prems have less: "length hs < headersBatchSize"
    by (simp split: if_splits)
  show ?case
  proof (cases ev)
    case RecvHeader
    with less Cons.prems show ?thesis
      by (auto split: list.splits sum.splits dest: Cons.IH)
  next
    case TimerFired
    with less Cons.prems show ?thesis
      by (auto split: if_splits dest: Cons.IH)
  next
    case RecvDone
    with less Cons.prems show ?thesis
      by (auto split: if_splits dest: Cons.IH)
  qed (use less Cons.prems in \<open>auto split: prod.splits dest: Cons.IH\<close>)
qed

lemma pull_loop_returned_length:
  "pull_loop f w t hs evs = PullReturned hs' f' w' evs' \<Longrightarrow>
     length hs \<le> headersBatchSize \<Longrightarrow> length hs' \<le> headersBatchSize"
proof (induction evs arbitrary: f w t hs)
  case Nil
  then show ?case by (simp split: if_splits)
next
  case (Cons ev evs)
  show ?case
  proof (cases "length hs < headersBatchSize")
    case False
    with Cons.prems show ?thesis by simp
  next
    case less: True
    show ?thesis
    proof (cases ev)
      case RecvHeader
      with less Cons.prems show ?thesis
        by (auto split: list.splits sum.splits dest: Cons.IH)
    next
      case TimerFired
      with less Cons.prems show ?thesis
        by (auto split: if_splits dest: Cons.IH)
    next
      case RecvDone
      with less Cons.prems show ?thesis
        by (auto split: if_splits dest: Cons.IH)
    qed (use less Cons.prems in \<open>auto split: prod.splits dest: Cons.IH\<close>)
  qed
qed

lemma pull_loop_returned_no_nil:
  "pull_loop f w t hs evs = PullReturned hs' f' w' evs' \<Longrightarrow>
     None \<notin> set hs \<Longrightarrow> None \<notin> set hs'"
proof (induction evs arbitrary: f w t hs)
  case Nil
  then show ?case by (simp split: if_splits)
next
  case (Cons ev evs)
  show ?case
  proof (cases "length hs < headersBatchSize")
    case False
    with Cons.prems show ?thesis by simp
  next
    case less: True
    show ?thesis
    proof (cases ev)
      case RecvHeader
      with less Cons.prems show ?thesis
        by (auto simp: height_of_def split: list.splits sum.splits option.splits dest: Cons.IH)
    next
      case TimerFired
      with less Cons.prems show ?thesis
        by (auto split: if_splits dest: Cons.IH)
    next
      case RecvDone
      with less Cons.prems show ?thesis
        by (auto split: if_splits dest: Cons.IH)
    qed (use less Cons.prems in \<open>auto split: prod.splits dest: Cons.IH\<close>)
  qed
qed

lemma pull_loop_append_returned:
  "pull_loop f w t hs evs = PullReturned hs' f' w' evs' \<Longrightarrow>
     pull_loop f w t hs (evs @ es) = PullReturned hs' f' w' (evs' @ es)"
proof (induction evs arbitrary: f w t hs)
  case Nil
  then show ?case by (simp add: pull_loop_full split: if_splits)
next
  case (Cons ev evs)
  show ?case
  proof (cases "length hs < headersBatchSize")
    case False
    with Cons.prems show ?thesis by (simp add: pull_loop_full)
  next
    case less: True
    show ?thesis
    proof (cases ev)
      case RecvHeader
      with less Cons.prems show ?thesis
        by (auto split: list.splits sum.splits intro: Cons.IH)
    next
      case TimerFired
      with less Cons.prems show ?thesis
        by (auto split: if_splits intro: Cons.IH)
    next
      case RecvDone
      with less Cons.prems show ?thesis
        by (auto split: if_splits intro: Cons.IH)
    qed (use less Cons.prems in \<open>auto split: prod.splits intro: Cons.IH\<close>)
  qed
qed

lemma pull_loop_append_panicked:
  "pull_loop f w t hs evs = PullPanicked p f' w' \<Longrightarrow>
     pull_loop f w t hs (evs @ es) = PullPanicked p f' w'"
proof (induction evs arbitrary: f w t hs)
  case Nil
  then show ?case by (simp split: if_splits)
next
  case (Cons ev evs)
  from Cons.prems have less: "length hs < headersBatchSize"
    by (simp split: if_splits)
  show ?case
  proof (cases ev)
    case RecvHeader
    with less Cons.prems show ?thesis
      by (auto split: list.splits sum.splits intro: Cons.IH)
  next
    case TimerFired
    with less Cons.prems show ?thesis
      by (auto split: if_splits intro: Cons.IH)
  next
    case RecvDone
    with less Cons.prems show ?thesis
      by (auto split: if_splits intro: Cons.IH)
  qed (use less Cons.prems in \<open>auto split: prod.splits intro: Cons.IH\<close>)
qed

text \<open>
  C4. A slice returned by \<^verbatim>\<open>pullHeadersFromQueue\<close> has at most 5 elements. A pull that
  waits holds fewer than 5; and when it holds 4 and the queue's case is taken, it returns
  the 5 headers at that event: the rest of the schedule, whatever it is (time passing, the
  timer, a cancellation, more headers), is handed back untouched, and the time has not
  moved.
\<close>

theorem pull_full_batch:
  "(pullHeadersFromQueue f w evs = PullReturned headers f' w' evs' \<longrightarrow>
      length headers \<le> headersBatchSize) \<and>
   (pullHeadersFromQueue f w evs = PullWaiting headers t f' w' \<longrightarrow>
      length headers < headersBatchSize \<and>
      (Suc (length headers) = headersBatchSize \<and> headersQueue f' = Some h # queue \<longrightarrow>
         pullHeadersFromQueue f w (evs @ RecvHeader # es) =
           PullReturned (headers @ [Some h]) (f'\<lparr>headersQueue := queue\<rparr>) w' es))"
proof (intro conjI impI)
  assume "pullHeadersFromQueue f w evs = PullReturned headers f' w' evs'"
  then show "length headers \<le> headersBatchSize"
    using pull_loop_returned_length [of f w "clock w + headerTimeout" "[]" evs]
    by (simp add: pullHeadersFromQueue_def)
next
  assume "pullHeadersFromQueue f w evs = PullWaiting headers t f' w'"
  then show "length headers < headersBatchSize"
    using pull_loop_waiting_short [of f w "clock w + headerTimeout" "[]" evs]
    by (simp add: pullHeadersFromQueue_def)
next
  assume waiting: "pullHeadersFromQueue f w evs = PullWaiting headers t f' w'"
    and last: "Suc (length headers) = headersBatchSize \<and> headersQueue f' = Some h # queue"
  from waiting have
    "pullHeadersFromQueue f w (evs @ RecvHeader # es) = pull_loop f' w' t headers (RecvHeader # es)"
    by (simp add: pullHeadersFromQueue_def pull_loop_append)
  also from last have "\<dots> = pull_loop (f'\<lparr>headersQueue := queue\<rparr>) w' (clock w' + headerTimeout)
      (headers @ [Some h]) es"
    by (auto simp: height_of_def)
  also from last have "\<dots> = PullReturned (headers @ [Some h]) (f'\<lparr>headersQueue := queue\<rparr>) w' es"
    by (simp add: pull_loop_full)
  finally show "pullHeadersFromQueue f w (evs @ RecvHeader # es) =
      PullReturned (headers @ [Some h]) (f'\<lparr>headersQueue := queue\<rparr>) w' es" .
qed

text \<open>
  The same with six headers sent: four received, then the fifth, which ends the pull
  while the sixth stays in the queue.
\<close>

theorem pull_full_batch_witness:
  "pullHeadersFromQueue testForwarder testWorld
     [Enqueue (Some (testHeader 1)), Enqueue (Some (testHeader 2)), Enqueue (Some (testHeader 3)),
      Enqueue (Some (testHeader 4)), Enqueue (Some (testHeader 5)), Enqueue (Some (testHeader 6)),
      RecvHeader, RecvHeader, RecvHeader, RecvHeader]
     = PullWaiting
         [Some (testHeader 1), Some (testHeader 2), Some (testHeader 3), Some (testHeader 4)] 1000
         (testForwarder\<lparr>headersQueue := [Some (testHeader 5), Some (testHeader 6)]\<rparr>) testWorld \<and>
   Suc (length [Some (testHeader 1), Some (testHeader 2), Some (testHeader 3),
                Some (testHeader 4)]) = headersBatchSize \<and>
   pullHeadersFromQueue testForwarder testWorld
     ([Enqueue (Some (testHeader 1)), Enqueue (Some (testHeader 2)), Enqueue (Some (testHeader 3)),
       Enqueue (Some (testHeader 4)), Enqueue (Some (testHeader 5)), Enqueue (Some (testHeader 6)),
       RecvHeader, RecvHeader, RecvHeader, RecvHeader] @ RecvHeader # [Elapse 5000, TimerFired, Cancel])
     = PullReturned
         [Some (testHeader 1), Some (testHeader 2), Some (testHeader 3), Some (testHeader 4),
          Some (testHeader 5)]
         (testForwarder\<lparr>headersQueue := [Some (testHeader 6)]\<rparr>) testWorld
         [Elapse 5000, TimerFired, Cancel] \<and>
   length [Some (testHeader 1), Some (testHeader 2), Some (testHeader 3), Some (testHeader 4),
           Some (testHeader 5)] \<le> headersBatchSize"
  using pull_full_batch [of testForwarder testWorld
      "[Enqueue (Some (testHeader 1)), Enqueue (Some (testHeader 2)), Enqueue (Some (testHeader 3)),
        Enqueue (Some (testHeader 4)), Enqueue (Some (testHeader 5)), Enqueue (Some (testHeader 6)),
        RecvHeader, RecvHeader, RecvHeader, RecvHeader]"
      "[Some (testHeader 1), Some (testHeader 2), Some (testHeader 3), Some (testHeader 4)]"
      "testForwarder\<lparr>headersQueue := [Some (testHeader 5), Some (testHeader 6)]\<rparr>" testWorld
      "[]" 1000 "testHeader 5" "[Some (testHeader 6)]" "[Elapse 5000, TimerFired, Cancel]"]
    pull_full_batch [of testForwarder testWorld
      "[Enqueue (Some (testHeader 1)), Enqueue (Some (testHeader 2)), Enqueue (Some (testHeader 3)),
        Enqueue (Some (testHeader 4)), Enqueue (Some (testHeader 5)), Enqueue (Some (testHeader 6)),
        RecvHeader, RecvHeader, RecvHeader, RecvHeader, RecvHeader, Elapse 5000, TimerFired, Cancel]"
      "[Some (testHeader 1), Some (testHeader 2), Some (testHeader 3), Some (testHeader 4),
        Some (testHeader 5)]"
      "testForwarder\<lparr>headersQueue := [Some (testHeader 6)]\<rparr>" testWorld
      "[Elapse 5000, TimerFired, Cancel]" 1000 "testHeader 5" "[]" "[]"]
  by (simp add: test_defs)

text \<open>
  C5. Let the pull wait with its timer expired. When the timer's case is taken and headers
  have been pulled, exactly these are returned at that event, with the rest of the schedule.
  When none has been pulled, the pull goes on as from its start, the timer set to expire
  \<open>headerTimeout\<close> after the current time; if nothing else happens it is then waiting with
  no header: it has neither returned nor panicked.
\<close>

theorem pull_idle_timer:
  assumes "pullHeadersFromQueue f w evs = PullWaiting headers t f' w'"
    and "t \<le> clock w'"
  shows "(headers \<noteq> [] \<longrightarrow>
            pullHeadersFromQueue f w (evs @ TimerFired # es) = PullReturned headers f' w' es) \<and>
         (headers = [] \<longrightarrow>
            pullHeadersFromQueue f w (evs @ TimerFired # es) =
              pull_loop f' w' (clock w' + headerTimeout) [] es \<and>
            pullHeadersFromQueue f w (evs @ [TimerFired]) =
              PullWaiting [] (clock w' + headerTimeout) f' w')"
proof -
  have short: "length headers < headersBatchSize"
    using assms(1) pull_loop_waiting_short [of f w "clock w + headerTimeout" "[]" evs]
    by (simp add: pullHeadersFromQueue_def)
  have "pullHeadersFromQueue f w (evs @ TimerFired # es') =
          pull_loop f' w' t headers (TimerFired # es')" for es'
    using assms(1) by (simp add: pullHeadersFromQueue_def pull_loop_append)
  with short assms(2) show ?thesis
    by (simp add: headersBatchSize_def)
qed

text \<open>
  The same with two headers received and one second gone by, and with no header at all.
\<close>

theorem pull_idle_timer_witness:
  "pullHeadersFromQueue testForwarder testWorld
     [Enqueue (Some (testHeader 1)), Enqueue (Some (testHeader 2)), RecvHeader, RecvHeader,
      Elapse 1000]
     = PullWaiting [Some (testHeader 1), Some (testHeader 2)] 1000 testForwarder
         (testWorld\<lparr>clock := 1000\<rparr>) \<and>
   (1000 :: nat) \<le> clock (testWorld\<lparr>clock := 1000\<rparr>) \<and>
   pullHeadersFromQueue testForwarder testWorld
     ([Enqueue (Some (testHeader 1)), Enqueue (Some (testHeader 2)), RecvHeader, RecvHeader,
       Elapse 1000] @ TimerFired # [Enqueue (Some (testHeader 3)), RecvHeader])
     = PullReturned [Some (testHeader 1), Some (testHeader 2)] testForwarder
         (testWorld\<lparr>clock := 1000\<rparr>) [Enqueue (Some (testHeader 3)), RecvHeader] \<and>
   pullHeadersFromQueue testForwarder testWorld [Elapse 1000]
     = PullWaiting [] 1000 testForwarder (testWorld\<lparr>clock := 1000\<rparr>) \<and>
   pullHeadersFromQueue testForwarder testWorld ([Elapse 1000] @ [TimerFired])
     = PullWaiting [] 2000 testForwarder (testWorld\<lparr>clock := 1000\<rparr>)"
  using pull_idle_timer [of testForwarder testWorld
      "[Enqueue (Some (testHeader 1)), Enqueue (Some (testHeader 2)), RecvHeader, RecvHeader,
        Elapse 1000]"
      "[Some (testHeader 1), Some (testHeader 2)]" 1000 testForwarder
      "testWorld\<lparr>clock := 1000\<rparr>" "[Enqueue (Some (testHeader 3)), RecvHeader]"]
    pull_idle_timer [of testForwarder testWorld "[Elapse 1000]" "[]" 1000 testForwarder
      "testWorld\<lparr>clock := 1000\<rparr>" "[]"]
  by (simp add: test_defs)

text \<open>
  C6. Let the pull wait while the context is cancelled. When the case of \<^verbatim>\<open>ctx.Done()\<close> is
  taken, the pull returns at that event exactly the headers pulled so far, which may be
  none; the queue, the time and the rest of the schedule are what they were.
\<close>

theorem pull_cancellation:
  assumes "pullHeadersFromQueue f w evs = PullWaiting headers t f' w'"
    and "ctxDone w'"
  shows "pullHeadersFromQueue f w (evs @ RecvDone # es) = PullReturned headers f' w' es"
proof -
  have short: "length headers < headersBatchSize"
    using assms(1) pull_loop_waiting_short [of f w "clock w + headerTimeout" "[]" evs]
    by (simp add: pullHeadersFromQueue_def)
  have "pullHeadersFromQueue f w (evs @ RecvDone # es) =
          pull_loop f' w' t headers (RecvDone # es)"
    using assms(1) by (simp add: pullHeadersFromQueue_def pull_loop_append)
  with short assms(2) show ?thesis
    by simp
qed

text \<open>The same with one header pulled and one left in the queue, and with none pulled.\<close>

theorem pull_cancellation_witness:
  "pullHeadersFromQueue testForwarder testWorld
     [Enqueue (Some (testHeader 1)), Enqueue (Some (testHeader 2)), RecvHeader, Cancel]
     = PullWaiting [Some (testHeader 1)] 1000
         (testForwarder\<lparr>headersQueue := [Some (testHeader 2)]\<rparr>)
         (testWorld\<lparr>ctxDone := True\<rparr>) \<and>
   ctxDone (testWorld\<lparr>ctxDone := True\<rparr>) \<and>
   pullHeadersFromQueue testForwarder testWorld
     ([Enqueue (Some (testHeader 1)), Enqueue (Some (testHeader 2)), RecvHeader, Cancel]
        @ RecvDone # [RecvHeader])
     = PullReturned [Some (testHeader 1)]
         (testForwarder\<lparr>headersQueue := [Some (testHeader 2)]\<rparr>)
         (testWorld\<lparr>ctxDone := True\<rparr>) [RecvHeader] \<and>
   pullHeadersFromQueue testForwarder testWorld ([Cancel] @ RecvDone # [])
     = PullReturned [] testForwarder (testWorld\<lparr>ctxDone := True\<rparr>) []"
  using pull_cancellation [of testForwarder testWorld
      "[Enqueue (Some (testHeader 1)), Enqueue (Some (testHeader 2)), RecvHeader, Cancel]"
      "[Some (testHeader 1)]" 1000 "testForwarder\<lparr>headersQueue := [Some (testHeader 2)]\<rparr>"
      "testWorld\<lparr>ctxDone := True\<rparr>" "[RecvHeader]"]
    pull_cancellation [of testForwarder testWorld "[Cancel]" "[]" 1000 testForwarder
      "testWorld\<lparr>ctxDone := True\<rparr>" "[]"]
  by (simp add: test_defs)

section \<open>Properties of the loop\<close>

text \<open>
  What others do, and the sleep, add to the end of the queue what producers send, and
  nothing else; the pull changes the queue only. The loop under an extended schedule is
  the loop resumed from where it stood. With the context cancelled the loop returns at
  once, and the rest of an iteration takes nothing from the queue. In every state of the
  loop the host chain, the error channel and the source chain are those it started with.
\<close>

lemma queue_only_refl: "queue_only f f"
  by (simp add: queue_only_def)

lemma queue_only_update: "queue_only f (f\<lparr>headersQueue := q\<rparr>)"
  by (simp add: queue_only_def)

lemma queue_only_fields:
  "queue_only f f' \<Longrightarrow>
     hostChain f' = hostChain f \<and> errChan f' = errChan f \<and> btcChain f' = btcChain f \<and>
     processedHeaders f' = processedHeaders f"
  by (cases f, cases f') (simp add: queue_only_def)

lemma queue_only_trans: "queue_only f g \<Longrightarrow> queue_only g h \<Longrightarrow> queue_only f h"
  by (cases f, cases g, cases h) (simp add: queue_only_def)

lemma grown_iff:
  "grown evs queue queue' \<longleftrightarrow>
     (\<exists>sent. queue' = queue @ sent \<and> (\<forall>h \<in> set sent. Enqueue h \<in> set evs))"
  by (auto simp: grown_def prefix_def)

lemma grown_refl: "grown evs queue queue"
  by (simp add: grown_iff)

lemma grown_trans:
  assumes "grown es queue queue'" and "grown es' queue' queue''"
    and "set es \<subseteq> set evs" and "set es' \<subseteq> set evs"
  shows "grown evs queue queue''"
proof -
  from assms(1) obtain sent where
    first: "queue' = queue @ sent" "\<forall>h \<in> set sent. Enqueue h \<in> set es"
    unfolding grown_iff by blast
  from assms(2) obtain sent' where
    second: "queue'' = queue' @ sent'" "\<forall>h \<in> set sent'. Enqueue h \<in> set es'"
    unfolding grown_iff by blast
  from first second assms(3,4) have
    "queue'' = queue @ (sent @ sent') \<and> (\<forall>h \<in> set (sent @ sent'). Enqueue h \<in> set evs)"
    by auto
  then show ?thesis
    unfolding grown_iff by blast
qed


lemma sent_only_refl: "sent_only evs s s"
  by (simp add: sent_only_def queue_only_refl grown_refl)

lemma sent_only_trans:
  assumes "sent_only es s s'" and "sent_only es' s' s''"
    and "set es \<subseteq> set evs" and "set es' \<subseteq> set evs"
  shows "sent_only evs s s''"
proof -
  from assms(1,2) have "queue_only (fst s) (fst s'')"
    by (auto simp: sent_only_def intro: queue_only_trans)
  moreover from assms(1,2) have
    "grown es (headersQueue (fst s)) (headersQueue (fst s'))"
    "grown es' (headersQueue (fst s')) (headersQueue (fst s''))"
    by (simp_all add: sent_only_def)
  then have "grown evs (headersQueue (fst s)) (headersQueue (fst s''))"
    using assms(3,4) by (rule grown_trans)
  moreover from assms(1,2) have "ctxDone (snd s) \<longrightarrow> ctxDone (snd s'')"
    by (simp add: sent_only_def)
  ultimately show ?thesis
    by (simp add: sent_only_def)
qed

lemma sent_only_later:
  assumes "sent_only evs s s'"
  shows "sent_only (ev # evs) s s'"
  using sent_only_refl [of "[]" s] assms by (rule sent_only_trans) auto

lemma sent_only_step:
  assumes "sent_only [ev] s s'" and "sent_only evs s' s''"
  shows "sent_only (ev # evs) s s''"
  using assms by (rule sent_only_trans) auto

lemma others_sent_only: "sent_only [ev] (f, w) (others (f, w) ev)"
  by (cases ev) (simp_all add: sent_only_def queue_only_def send_def grown_iff)

lemma afterwards_sent_only: "sent_only evs (f, w) (afterwards f w evs)"
proof (induction evs arbitrary: f w)
  case Nil
  show ?case by (simp add: afterwards_def sent_only_refl)
next
  case (Cons ev evs)
  obtain f' w' where step: "others (f, w) ev = (f', w')"
    by (cases "others (f, w) ev")
  then have "afterwards f w (ev # evs) = afterwards f' w' evs"
    by (simp add: afterwards_def)
  moreover have "sent_only [ev] (f, w) (f', w')"
    using others_sent_only [of ev f w] step by simp
  moreover note Cons.IH [of f' w']
  ultimately show ?case
    by (auto intro: sent_only_step)
qed

lemma sleep_select_sent_only:
  "(sleep_select f w t evs = SleepDone f' w' evs' \<longrightarrow>
      sent_only evs (f, w) (f', w') \<and> (ctxDone w' \<or> t \<le> clock w') \<and> set evs' \<subseteq> set evs) \<and>
   (sleep_select f w t evs = SleepWaiting t' f' w' \<longrightarrow> sent_only evs (f, w) (f', w') \<and> t' = t)"
proof (induction evs arbitrary: f w)
  case Nil
  show ?case by (simp add: sent_only_refl)
next
  case (Cons ev evs)
  obtain g v where step: "others (f, w) ev = (g, v)"
    by (cases "others (f, w) ev")
  have first: "sent_only [ev] (f, w) (g, v)"
    using others_sent_only [of ev f w] step by simp
  show ?case
  proof (cases ev)
    case TimerFired
    with Cons.IH [of f w] show ?thesis
      by (auto simp: sent_only_refl intro: sent_only_later)
  next
    case RecvDone
    with Cons.IH [of f w] show ?thesis
      by (auto simp: sent_only_refl intro: sent_only_later)
  qed (use step first Cons.IH [of g v] in \<open>auto intro: sent_only_step\<close>)
qed

lemma pull_loop_queue_only:
  "(pull_loop f w t hs evs = PullReturned hs' f' w' evs' \<longrightarrow>
      queue_only f f' \<and> (ctxDone w \<longrightarrow> ctxDone w')) \<and>
   (pull_loop f w t hs evs = PullWaiting hs' t' f' w' \<longrightarrow>
      queue_only f f' \<and> (ctxDone w \<longrightarrow> ctxDone w')) \<and>
   (pull_loop f w t hs evs = PullPanicked p f' w' \<longrightarrow>
      queue_only f f' \<and> (ctxDone w \<longrightarrow> ctxDone w'))"
proof (induction evs arbitrary: f w t hs)
  case Nil
  show ?case by (simp add: queue_only_refl)
next
  case (Cons ev evs)
  show ?case
  proof (cases "length hs < headersBatchSize")
    case False
    then show ?thesis by (simp add: queue_only_refl)
  next
    case less: True
    obtain g v where step: "others (f, w) ev = (g, v)"
      by (cases "others (f, w) ev")
    have first: "queue_only f g \<and> (ctxDone w \<longrightarrow> ctxDone v)"
      using others_sent_only [of ev f w] step by (simp add: sent_only_def)
    show ?thesis
    proof (cases ev)
      case RecvHeader
      show ?thesis
      proof (cases "headersQueue f")
        case Nil
        with less RecvHeader Cons.IH [of f w t hs] show ?thesis by simp
      next
        case (Cons header queue)
        have upd: "queue_only f (f\<lparr>headersQueue := queue\<rparr>)"
          by (rule queue_only_update)
        show ?thesis
        proof (cases "height_of header")
          case (Inl q)
          with less RecvHeader Cons upd show ?thesis by auto
        next
          case (Inr height)
          with less RecvHeader Cons upd
            Cons.IH [of "f\<lparr>headersQueue := queue\<rparr>" w "clock w + headerTimeout" "hs @ [header]"]
          show ?thesis
            by (auto intro: queue_only_trans)
        qed
      qed
    next
      case TimerFired
      with less Cons.IH [of f w t hs] Cons.IH [of f w "clock w + headerTimeout" hs] show ?thesis
        by (simp add: queue_only_refl)
    next
      case RecvDone
      with less Cons.IH [of f w t hs] show ?thesis
        by (simp add: queue_only_refl)
    qed (use less step first Cons.IH [of g v t hs] in \<open>auto intro: queue_only_trans\<close>)
  qed
qed

lemma sleep_select_append_done:
  "sleep_select f w t evs = SleepDone f' w' evs' \<Longrightarrow>
     sleep_select f w t (evs @ es) = SleepDone f' w' (evs' @ es)"
proof (induction evs arbitrary: f w)
  case Nil
  then show ?case by simp
next
  case (Cons ev evs)
  then show ?case
    by (cases ev) (auto split: if_splits prod.splits)
qed

lemma sleep_select_append:
  "sleep_select f w t evs = SleepWaiting t' f' w' \<Longrightarrow>
     sleep_select f w t (evs @ es) = sleep_select f' w' t' es"
proof (induction evs arbitrary: f w)
  case Nil
  then show ?case by simp
next
  case (Cons ev evs)
  then show ?case
    by (cases ev) (auto split: if_splits prod.splits)
qed

lemma afterwards_append:
  "afterwards f w (evs @ es) = (case afterwards f w evs of (f', w') \<Rightarrow> afterwards f' w' es)"
  by (simp add: afterwards_def split: prod.splits)

lemma loop_append:
  "loop f w (evs @ es) = resume (loop f w evs) es"
  "afterPull f w headers (evs @ es) = resume (afterPull f w headers evs) es"
proof (induction f w evs and f w headers evs rule: loop_afterPull.induct)
  case (1 f w evs)
  show ?case
  proof (cases "ctxDone w")
    case True
    then show ?thesis
      by (simp add: loop.simps resume_def afterwards_append split: prod.splits)
  next
    case False
    show ?thesis
    proof (cases "pullHeadersFromQueue f w evs")
      case (PullReturned hs f' w' evs')
      with False "1.IH" have "afterPull f' w' hs (evs' @ es) = resume (afterPull f' w' hs evs') es"
        by simp
      moreover from PullReturned
      have "pullHeadersFromQueue f w (evs @ es) = PullReturned hs f' w' (evs' @ es)"
        by (simp add: pullHeadersFromQueue_def pull_loop_append_returned)
      ultimately show ?thesis
        using False PullReturned by (simp add: loop.simps)
    next
      case (PullWaiting hs t f' w')
      then have "pullHeadersFromQueue f w (evs @ es) = pull_loop f' w' t hs es"
        by (simp add: pullHeadersFromQueue_def pull_loop_append)
      with False PullWaiting show ?thesis
        by (simp add: loop.simps resume_def)
    next
      case (PullPanicked p f' w')
      then have "pullHeadersFromQueue f w (evs @ es) = PullPanicked p f' w'"
        by (simp add: pullHeadersFromQueue_def pull_loop_append_panicked)
      with False PullPanicked show ?thesis
        by (simp add: loop.simps resume_def)
    qed
  qed
next
  case (2 f w headers evs)
  show ?case
  proof (cases "length headers = 0")
    case True
    with "2.IH"(1) show ?thesis by (simp add: afterPull.simps)
  next
    case nonempty: False
    show ?thesis
    proof (cases "pushHeadersToChain f headers")
      case (Inl p)
      with nonempty show ?thesis by (simp add: afterPull.simps resume_def)
    next
      case (Inr f')
      show ?thesis
      proof (cases "sleep_select f' w (clock w + forwarderSleepTime) evs")
        case (SleepDone f'' w' evs')
        with nonempty Inr "2.IH"(2) have "loop f'' w' (evs' @ es) = resume (loop f'' w' evs') es"
          by simp
        with nonempty Inr SleepDone show ?thesis
          by (simp add: afterPull.simps sleep_select_append_done)
      next
        case (SleepWaiting t f'' w')
        with nonempty Inr show ?thesis
          by (simp add: afterPull.simps sleep_select_append resume_def)
      qed
    qed
  qed
qed

lemma loop_cancelled:
  "ctxDone w \<Longrightarrow> loop f w evs = (case afterwards f w evs of (f', w') \<Rightarrow> Exited f' w')"
  by (simp add: loop.simps)







lemma pulled_batch_pushes:
  assumes "pullHeadersFromQueue f w evs = PullReturned headers f' w' evs'"
  shows "\<exists>f''. pushHeadersToChain f' headers = Inr f''"
proof (cases "headers = []")
  case True
  then show ?thesis by (simp add: pushHeadersToChain_def)
next
  case False
  from assms have "None \<notin> set headers"
    using pull_loop_returned_no_nil [of f w "clock w + headerTimeout" "[]" evs headers f' w' evs']
    by (simp add: pullHeadersFromQueue_def)
  with False obtain first lst where "hd headers = Some first" "last headers = Some lst"
    by (metis hd_in_set last_in_set not_None_eq)
  from push_nonempty [OF False this] show ?thesis by simp
qed

lemma loop_frame:
  "hostChain (fwd_of (loop f w evs)) = hostChain f \<and> errChan (fwd_of (loop f w evs)) = errChan f \<and>
   btcChain (fwd_of (loop f w evs)) = btcChain f \<and>
   (0 \<le> processedHeaders f \<and> processedHeaders f < int headersBatchSize \<longrightarrow>
      0 \<le> processedHeaders (fwd_of (loop f w evs)) \<and>
      processedHeaders (fwd_of (loop f w evs)) < int headersBatchSize)"
  "hostChain (fwd_of (afterPull f w headers evs)) = hostChain f \<and>
   errChan (fwd_of (afterPull f w headers evs)) = errChan f \<and>
   btcChain (fwd_of (afterPull f w headers evs)) = btcChain f \<and>
   (0 \<le> processedHeaders f \<and> processedHeaders f < int headersBatchSize \<longrightarrow>
      0 \<le> processedHeaders (fwd_of (afterPull f w headers evs)) \<and>
      processedHeaders (fwd_of (afterPull f w headers evs)) < int headersBatchSize)"
proof (induction f w evs and f w headers evs rule: loop_afterPull.induct)
  case (1 f w evs)
  show ?case
  proof (cases "ctxDone w")
    case True
    obtain f' w' where aft: "afterwards f w evs = (f', w')"
      by (cases "afterwards f w evs")
    with afterwards_sent_only [of evs f w] have "queue_only f f'"
      by (simp add: sent_only_def)
    from queue_only_fields [OF this] True aft show ?thesis
      by (simp add: loop_cancelled)
  next
    case False
    show ?thesis
    proof (cases "pullHeadersFromQueue f w evs")
      case (PullReturned hs f' w' evs')
      then have "queue_only f f'"
        using pull_loop_queue_only [of f w "clock w + headerTimeout" "[]" evs hs f' w' evs']
        by (simp add: pullHeadersFromQueue_def)
      from queue_only_fields [OF this] "1.IH" [OF False PullReturned] False PullReturned
      show ?thesis by (simp add: loop.simps)
    next
      case (PullWaiting hs t f' w')
      then have "queue_only f f'"
        using pull_loop_queue_only [of f w "clock w + headerTimeout" "[]" evs hs f' w' _ t]
        by (simp add: pullHeadersFromQueue_def)
      from queue_only_fields [OF this] False PullWaiting
      show ?thesis by (simp add: loop.simps)
    next
      case (PullPanicked p f' w')
      then have "queue_only f f'"
        using pull_loop_queue_only [of f w "clock w + headerTimeout" "[]" evs _ f' w' _ _ p]
        by (simp add: pullHeadersFromQueue_def)
      from queue_only_fields [OF this] False PullPanicked
      show ?thesis by (simp add: loop.simps)
    qed
  qed
next
  case (2 f w headers evs)
  show ?case
  proof (cases "length headers = 0")
    case True
    with "2.IH"(1) show ?thesis by (simp add: afterPull.simps)
  next
    case nonempty: False
    show ?thesis
    proof (cases "pushHeadersToChain f headers")
      case (Inl p)
      with nonempty show ?thesis by (simp add: afterPull.simps)
    next
      case (Inr f')
      note frame = push_frame [OF Inr]
      have counter: "0 \<le> processedHeaders f' \<and> processedHeaders f' < int headersBatchSize"
        if "0 \<le> processedHeaders f \<and> processedHeaders f < int headersBatchSize"
        using that push_counter [of f headers f'] Inr by simp
      show ?thesis
      proof (cases "sleep_select f' w (clock w + forwarderSleepTime) evs")
        case (SleepDone f'' w' evs')
        with sleep_select_sent_only [of f' w "clock w + forwarderSleepTime" evs f'' w' evs']
        have "queue_only f' f''" by (simp add: sent_only_def)
        from queue_only_fields [OF this] "2.IH"(2) [OF nonempty Inr SleepDone] frame counter
          nonempty Inr SleepDone
        show ?thesis by (simp add: afterPull.simps)
      next
        case (SleepWaiting t f'' w')
        with sleep_select_sent_only [of f' w "clock w + forwarderSleepTime" evs f'' w' _ t]
        have "queue_only f' f''" by (simp add: sent_only_def)
        from queue_only_fields [OF this] frame counter nonempty Inr SleepWaiting
        show ?thesis by (simp add: afterPull.simps)
      qed
    qed
  qed
qed

text \<open>
  C7. One iteration of the loop, from a context that is not cancelled and a pull that
  returns. If the slice is empty, the loop goes on at its first \<^verbatim>\<open>select\<close>, which tests the
  context, in the state in which the pull returned: no event is consumed and no time
  passes. If not, the push of the slice returns (a pulled slice holds no nil pointer) and
  the loop enters the \<^verbatim>\<open>select\<close> of the sleep, whose timer expires \<open>forwarderSleepTime\<close>
  after the time of the push. When that \<^verbatim>\<open>select\<close> is left, the time has come or the context
  is cancelled; while it is pending under a cancelled context, the case of \<^verbatim>\<open>ctx.Done()\<close>
  ends it at once, and the loop goes on at its first \<^verbatim>\<open>select\<close>. After a push that panics
  there is no sleep.
\<close>

theorem loop_iteration:
  assumes "\<not> ctxDone w"
    and "pullHeadersFromQueue f w evs = PullReturned headers f' w' evs'"
  shows "(if headers = [] then loop f w evs = loop f' w' evs'
          else \<exists>f''. pushHeadersToChain f' headers = Inr f'' \<and>
            (case sleep_select f'' w' (clock w' + forwarderSleepTime) evs' of
               SleepDone f3 w3 evs3 \<Rightarrow>
                 loop f w evs = loop f3 w3 evs3 \<and>
                 (ctxDone w3 \<or> clock w' + forwarderSleepTime \<le> clock w3)
             | SleepWaiting timer f3 w3 \<Rightarrow>
                 loop f w evs = InSleep timer f3 w3 \<and>
                 timer = clock w' + forwarderSleepTime \<and>
                 (ctxDone w3 \<longrightarrow> (\<forall>es. loop f w (evs @ RecvDone # es) = loop f3 w3 es)))) \<and>
         (pushHeadersToChain g hs = Inl p \<longrightarrow> afterPull g v hs es' = Crashed p g v)"
proof (intro conjI impI)
  assume "pushHeadersToChain g hs = Inl p"
  moreover from this have "hs \<noteq> []"
    by (auto simp: pushHeadersToChain_def)
  ultimately show "afterPull g v hs es' = Crashed p g v"
    by (simp add: afterPull.simps)
next
  have unfold: "loop f w evs = afterPull f' w' headers evs'"
    using assms by (simp add: loop.simps)
  show "if headers = [] then loop f w evs = loop f' w' evs'
        else \<exists>f''. pushHeadersToChain f' headers = Inr f'' \<and>
          (case sleep_select f'' w' (clock w' + forwarderSleepTime) evs' of
             SleepDone f3 w3 evs3 \<Rightarrow>
               loop f w evs = loop f3 w3 evs3 \<and>
               (ctxDone w3 \<or> clock w' + forwarderSleepTime \<le> clock w3)
           | SleepWaiting timer f3 w3 \<Rightarrow>
               loop f w evs = InSleep timer f3 w3 \<and>
               timer = clock w' + forwarderSleepTime \<and>
               (ctxDone w3 \<longrightarrow> (\<forall>es. loop f w (evs @ RecvDone # es) = loop f3 w3 es)))"
  proof (cases "headers = []")
    case True
    with unfold show ?thesis by (simp add: afterPull.simps)
  next
    case False
    from pulled_batch_pushes [OF assms(2)] obtain f'' where
      pushed: "pushHeadersToChain f' headers = Inr f''" ..
    have "case sleep_select f'' w' (clock w' + forwarderSleepTime) evs' of
             SleepDone f3 w3 evs3 \<Rightarrow>
               loop f w evs = loop f3 w3 evs3 \<and>
               (ctxDone w3 \<or> clock w' + forwarderSleepTime \<le> clock w3)
           | SleepWaiting timer f3 w3 \<Rightarrow>
               loop f w evs = InSleep timer f3 w3 \<and>
               timer = clock w' + forwarderSleepTime \<and>
               (ctxDone w3 \<longrightarrow> (\<forall>es. loop f w (evs @ RecvDone # es) = loop f3 w3 es))"
    proof (cases "sleep_select f'' w' (clock w' + forwarderSleepTime) evs'")
      case (SleepDone f3 w3 evs3)
      with sleep_select_sent_only [of f'' w' "clock w' + forwarderSleepTime" evs' f3 w3 evs3]
        unfold False pushed
      show ?thesis by (simp add: afterPull.simps)
    next
      case (SleepWaiting timer f3 w3)
      with sleep_select_sent_only [of f'' w' "clock w' + forwarderSleepTime" evs' f3 w3 _ timer]
      have timer: "timer = clock w' + forwarderSleepTime" by simp
      from SleepWaiting unfold False pushed have now: "loop f w evs = InSleep timer f3 w3"
        by (simp add: afterPull.simps)
      have "loop f w (evs @ RecvDone # es) = loop f3 w3 es" if "ctxDone w3" for es
        using that by (simp add: loop_append(1) now resume_def)
      with SleepWaiting timer now show ?thesis by simp
    qed
    with False pushed show ?thesis by auto
  qed
qed

text \<open>
  The same for a pull of one header followed by a cancellation during the sleep, for an
  empty pull, and for a push of a nil pointer.
\<close>

theorem loop_iteration_witness:
  "\<not> ctxDone testWorld \<and>
   pullHeadersFromQueue testForwarder testWorld
     [Enqueue (Some (testHeader 1)), RecvHeader, Elapse 1000, TimerFired, Cancel]
     = PullReturned [Some (testHeader 1)] testForwarder (testWorld\<lparr>clock := 1000\<rparr>) [Cancel] \<and>
   pushHeadersToChain testForwarder [Some (testHeader 1)]
     = Inr (testForwarder\<lparr>processedHeaders := 1\<rparr>) \<and>
   loop testForwarder testWorld
     [Enqueue (Some (testHeader 1)), RecvHeader, Elapse 1000, TimerFired, Cancel]
     = InSleep 46000 (testForwarder\<lparr>processedHeaders := 1\<rparr>)
         (testWorld\<lparr>clock := 1000, ctxDone := True\<rparr>) \<and>
   loop testForwarder testWorld
     ([Enqueue (Some (testHeader 1)), RecvHeader, Elapse 1000, TimerFired, Cancel]
        @ RecvDone # [Enqueue (Some (testHeader 2)), RecvHeader])
     = Exited (testForwarder\<lparr>processedHeaders := 1, headersQueue := [Some (testHeader 2)]\<rparr>)
         (testWorld\<lparr>clock := 1000, ctxDone := True\<rparr>) \<and>
   pullHeadersFromQueue testForwarder testWorld [Cancel, RecvDone, Elapse 7]
     = PullReturned [] testForwarder (testWorld\<lparr>ctxDone := True\<rparr>) [Elapse 7] \<and>
   loop testForwarder testWorld [Cancel, RecvDone, Elapse 7]
     = Exited testForwarder (testWorld\<lparr>ctxDone := True, clock := 7\<rparr>) \<and>
   pushHeadersToChain testForwarder [None] = Inl NilPointerDereference \<and>
   afterPull testForwarder testWorld [None] [Elapse 45000, TimerFired]
     = Crashed NilPointerDereference testForwarder testWorld"
proof -
  have running: "\<not> ctxDone testWorld"
    by (simp add: testWorld_def)
  have pulled: "pullHeadersFromQueue testForwarder testWorld
      [Enqueue (Some (testHeader 1)), RecvHeader, Elapse 1000, TimerFired, Cancel]
      = PullReturned [Some (testHeader 1)] testForwarder (testWorld\<lparr>clock := 1000\<rparr>) [Cancel]"
    by (simp add: test_defs)
  have pushed: "pushHeadersToChain testForwarder [Some (testHeader 1)]
      = Inr (testForwarder\<lparr>processedHeaders := 1\<rparr>)"
    by (simp add: push_nonempty test_defs)
  have empty: "pullHeadersFromQueue testForwarder testWorld [Cancel, RecvDone, Elapse 7]
      = PullReturned [] testForwarder (testWorld\<lparr>ctxDone := True\<rparr>) [Elapse 7]"
    by (simp add: test_defs)
  have nil: "pushHeadersToChain testForwarder [None] = Inl NilPointerDereference"
    by (simp add: pushHeadersToChain_def index_def height_of_def)
  note first = loop_iteration [OF running pulled, of testForwarder "[None]" NilPointerDereference
      testWorld "[Elapse 45000, TimerFired]"]
  note second = loop_iteration [OF running empty, of testForwarder "[None]" NilPointerDereference
      testWorld "[Elapse 45000, TimerFired]"]
  from first pushed nil have sleeping:
    "loop testForwarder testWorld
       [Enqueue (Some (testHeader 1)), RecvHeader, Elapse 1000, TimerFired, Cancel]
       = InSleep 46000 (testForwarder\<lparr>processedHeaders := 1\<rparr>)
           (testWorld\<lparr>clock := 1000, ctxDone := True\<rparr>)"
    and crashed: "afterPull testForwarder testWorld [None] [Elapse 45000, TimerFired]
       = Crashed NilPointerDereference testForwarder testWorld"
    and woken: "loop testForwarder testWorld
       ([Enqueue (Some (testHeader 1)), RecvHeader, Elapse 1000, TimerFired, Cancel]
          @ RecvDone # es)
       = loop (testForwarder\<lparr>processedHeaders := 1\<rparr>)
           (testWorld\<lparr>clock := 1000, ctxDone := True\<rparr>) es" for es
    by (simp_all add: test_defs)
  from second have again: "loop testForwarder testWorld [Cancel, RecvDone, Elapse 7]
      = loop testForwarder (testWorld\<lparr>ctxDone := True\<rparr>) [Elapse 7]"
    by simp
  show ?thesis
    using running pulled pushed empty nil sleeping crashed again
      woken [of "[Enqueue (Some (testHeader 2)), RecvHeader]"]
    by (simp add: loop_cancelled afterwards_def test_defs)
qed

text \<open>
  Between the cancellation and its observation the pull can still receive: with a header
  in the queue and the context cancelled, the queue's case is one of those that are ready.
\<close>

lemma cancelled_not_yet_observed:
  "pullHeadersFromQueue testForwarder testWorld
     [Enqueue (Some (testHeader 6)), Cancel, RecvHeader]
     = PullWaiting [Some (testHeader 6)] 1000 testForwarder (testWorld\<lparr>ctxDone := True\<rparr>)"
  by (simp add: test_defs)



text \<open>
  C9. \<open>processedHeaders\<close> is 0 in the forwarder that \<^verbatim>\<open>RunForwarder\<close> builds. A call of
  \<^verbatim>\<open>pushHeadersToChain\<close> that starts with \<open>0 \<le> processedHeaders < 5\<close> and returns ends
  with \<open>0 \<le> processedHeaders < 5\<close>. Hence the bounds hold wherever the loop started by
  \<^verbatim>\<open>RunForwarder\<close> stands at the end of a schedule.
\<close>

theorem processed_headers_invariant:
  "processedHeaders (RunForwarder btc host) = 0 \<and>
   (0 \<le> processedHeaders f \<and> processedHeaders f < int headersBatchSize \<and>
    pushHeadersToChain f headers = Inr f' \<longrightarrow>
      0 \<le> processedHeaders f' \<and> processedHeaders f' < int headersBatchSize) \<and>
   0 \<le> processedHeaders (fwd_of (loop (RunForwarder btc host) w evs)) \<and>
   processedHeaders (fwd_of (loop (RunForwarder btc host) w evs)) < int headersBatchSize"
  using push_counter [of f headers f'] loop_frame(1) [of "RunForwarder btc host" w evs]
  by (simp add: RunForwarder_def headersBatchSize_def)

text \<open>The same for a push of three headers on a counter of 3, which returns to 0.\<close>

theorem processed_headers_invariant_witness:
  "0 \<le> processedHeaders (testForwarder\<lparr>processedHeaders := 3\<rparr>) \<and>
   processedHeaders (testForwarder\<lparr>processedHeaders := 3\<rparr>) < int headersBatchSize \<and>
   pushHeadersToChain (testForwarder\<lparr>processedHeaders := 3\<rparr>)
      [Some (testHeader 6), Some (testHeader 7), Some (testHeader 8)] = Inr testForwarder \<and>
   processedHeaders testForwarder = 0 \<and> int headersBatchSize = 5"
  using processed_headers_invariant [of "[testBtcHeader]" testHost
      "testForwarder\<lparr>processedHeaders := 3\<rparr>"
      "[Some (testHeader 6), Some (testHeader 7), Some (testHeader 8)]" testForwarder]
  by (simp add: push_nonempty test_defs)


end
